theory Spec2Isabelle
  imports Complex_Main
begin

section \<open>JavaScript numbers\<close>

text \<open>
  A JavaScript \<^verbatim>\<open>number\<close> is modelled as a real number or one of the three special
  values of IEEE arithmetic. The finite part is exact: the rounding of a result to the
  nearest double, overflow to an infinity and underflow to zero are not modelled, and
  the two zeros \<^verbatim>\<open>+0\<close> and \<^verbatim>\<open>-0\<close> are one value (\<^verbatim>\<open>===\<close>, \<^verbatim>\<open><\<close>, \<^verbatim>\<open>Set\<close> membership and
  the numeric sort do not tell them apart; a division by zero gives the result for \<^verbatim>\<open>+0\<close>).
  The special values follow IEEE 754: every comparison with \<^verbatim>\<open>NaN\<close> is false,
  \<^verbatim>\<open>Infinity - Infinity\<close>, \<^verbatim>\<open>0 * Infinity\<close>, \<^verbatim>\<open>0 / 0\<close> and \<^verbatim>\<open>Infinity / Infinity\<close>
  are \<^verbatim>\<open>NaN\<close>.

  Numbers that count (\<^verbatim>\<open>significantDigits\<close>, the digit bounds of the scale options, \<^verbatim>\<open>steps\<close>,
  \<^verbatim>\<open>count\<close>, a loop index) are integers.
\<close>

datatype jsnum = Fin real | PInf | NInf | NaN

fun isFinite :: "jsnum \<Rightarrow> bool" where
  "isFinite (Fin x) = True"
| "isFinite PInf = False"
| "isFinite NInf = False"
| "isFinite NaN = False"

text \<open>The sign of a number that is not \<^verbatim>\<open>NaN\<close>: \<open>-1\<close>, \<open>0\<close> or \<open>1\<close>.\<close>

fun js_sgn :: "jsnum \<Rightarrow> int" where
  "js_sgn (Fin x) = (if x < 0 then -1 else if x = 0 then 0 else 1)"
| "js_sgn PInf = 1"
| "js_sgn NInf = -1"
| "js_sgn NaN = 0"

fun js_inf :: "int \<Rightarrow> jsnum" where
  "js_inf s = (if s < 0 then NInf else if s = 0 then NaN else PInf)"

instantiation jsnum :: "{plus, minus, uminus, times, inverse, abs, ord}"
begin

fun uminus_jsnum :: "jsnum \<Rightarrow> jsnum" where
  "uminus_jsnum (Fin x) = Fin (- x)"
| "uminus_jsnum PInf = NInf"
| "uminus_jsnum NInf = PInf"
| "uminus_jsnum NaN = NaN"

fun abs_jsnum :: "jsnum \<Rightarrow> jsnum" where
  "abs_jsnum (Fin x) = Fin \<bar>x\<bar>"
| "abs_jsnum PInf = PInf"
| "abs_jsnum NInf = PInf"
| "abs_jsnum NaN = NaN"

fun plus_jsnum :: "jsnum \<Rightarrow> jsnum \<Rightarrow> jsnum" where
  "plus_jsnum NaN b = NaN"
| "plus_jsnum a NaN = NaN"
| "plus_jsnum (Fin x) (Fin y) = Fin (x + y)"
| "plus_jsnum (Fin x) b = b"
| "plus_jsnum a (Fin y) = a"
| "plus_jsnum PInf PInf = PInf"
| "plus_jsnum NInf NInf = NInf"
| "plus_jsnum PInf NInf = NaN"
| "plus_jsnum NInf PInf = NaN"

definition minus_jsnum :: "jsnum \<Rightarrow> jsnum \<Rightarrow> jsnum" where
  "minus_jsnum a b = a + (- b)"

fun times_jsnum :: "jsnum \<Rightarrow> jsnum \<Rightarrow> jsnum" where
  "times_jsnum NaN b = NaN"
| "times_jsnum a NaN = NaN"
| "times_jsnum (Fin x) (Fin y) = Fin (x * y)"
| "times_jsnum a b = js_inf (js_sgn a * js_sgn b)"

fun divide_jsnum :: "jsnum \<Rightarrow> jsnum \<Rightarrow> jsnum" where
  "divide_jsnum NaN b = NaN"
| "divide_jsnum a NaN = NaN"
| "divide_jsnum (Fin x) (Fin y) = (if y = 0 then js_inf (js_sgn (Fin x)) else Fin (x / y))"
| "divide_jsnum (Fin x) b = Fin 0"
| "divide_jsnum a (Fin y) = js_inf (js_sgn a * (if y < 0 then -1 else 1))"
| "divide_jsnum a b = NaN"

definition inverse_jsnum :: "jsnum \<Rightarrow> jsnum" where
  "inverse_jsnum a = divide (Fin 1) a"

fun less_jsnum :: "jsnum \<Rightarrow> jsnum \<Rightarrow> bool" where
  "less_jsnum NaN b = False"
| "less_jsnum a NaN = False"
| "less_jsnum (Fin x) (Fin y) = (x < y)"
| "less_jsnum a PInf = (a \<noteq> PInf)"
| "less_jsnum NInf b = (b \<noteq> NInf)"
| "less_jsnum a b = False"

fun less_eq_jsnum :: "jsnum \<Rightarrow> jsnum \<Rightarrow> bool" where
  "less_eq_jsnum NaN b = False"
| "less_eq_jsnum a NaN = False"
| "less_eq_jsnum a b = (a = b \<or> a < b)"

instance ..

end

text \<open>Strict equality \<^verbatim>\<open>===\<close> on numbers: \<^verbatim>\<open>NaN\<close> is not equal to itself.\<close>

definition js_eq :: "jsnum \<Rightarrow> jsnum \<Rightarrow> bool" where
  "js_eq a b = (a \<noteq> NaN \<and> a = b)"

fun Math_log10 :: "jsnum \<Rightarrow> jsnum" where
  "Math_log10 (Fin x) = (if x < 0 then NaN else if x = 0 then NInf else Fin (log 10 x))"
| "Math_log10 PInf = PInf"
| "Math_log10 NInf = NaN"
| "Math_log10 NaN = NaN"

fun Math_floor :: "jsnum \<Rightarrow> jsnum" where
  "Math_floor (Fin x) = Fin (of_int \<lfloor>x\<rfloor>)"
| "Math_floor a = a"

text \<open>\<^verbatim>\<open>Math.round\<close> takes the nearest integer and, of two equally near, the one
  closer to \<^verbatim>\<open>+Infinity\<close>: this is \<^const>\<open>round\<close>, which is \<open>\<lfloor>x + 1 / 2\<rfloor>\<close>.\<close>

fun Math_round :: "jsnum \<Rightarrow> jsnum" where
  "Math_round (Fin x) = Fin (of_int (round x))"
| "Math_round a = a"

text \<open>\<^verbatim>\<open>Math.pow(10, y)\<close>; the source raises no other base.\<close>

fun Math_pow10 :: "jsnum \<Rightarrow> jsnum" where
  "Math_pow10 (Fin y) = Fin (10 powr y)"
| "Math_pow10 PInf = PInf"
| "Math_pow10 NInf = Fin 0"
| "Math_pow10 NaN = NaN"

section \<open>Significant digits (significant-digits.ts)\<close>

subsection \<open>Number.prototype.toExponential\<close>

text \<open>
  \<^verbatim>\<open>x.toExponential()\<close> without an argument writes \<open>x\<close> with one digit before the point
  and as many digits after it as are needed: ECMAScript picks integers \<open>e\<close>, \<open>n\<close>, \<open>f\<close>
  with \<open>10 ^ f \<le> n < 10 ^ (f + 1)\<close> and \<open>n * 10 ^ (e - f) = x\<close>, \<open>f\<close> as small as
  possible. On exact reals the search for \<open>f\<close> is cut at 16 digits after the point, the
  17 significant digits that tell any two doubles apart.
\<close>

definition digit_char :: "nat \<Rightarrow> char" where
  "digit_char d = ''0123456789'' ! d"

fun digits_of :: "nat \<Rightarrow> string" where
  "digits_of n = (if n < 10 then [digit_char n] else digits_of (n div 10) @ [digit_char (n mod 10)])"

declare digits_of.simps [simp del]

definition is_integer :: "real \<Rightarrow> bool" where
  "is_integer y = (of_int \<lfloor>y\<rfloor> = y)"

function fraction_digits :: "real \<Rightarrow> nat \<Rightarrow> nat" where
  "fraction_digits m f =
     (if 16 \<le> f \<or> is_integer (m * 10 ^ f) then f else fraction_digits m (Suc f))"
  by pat_completeness auto
termination
  by (relation "measure (\<lambda>(m, f). 16 - f)") auto

declare fraction_digits.simps [simp del]

definition toExponential :: "jsnum \<Rightarrow> string" where
  "toExponential v =
     (case v of
        NaN \<Rightarrow> ''NaN''
      | PInf \<Rightarrow> ''Infinity''
      | NInf \<Rightarrow> ''-Infinity''
      | Fin x \<Rightarrow>
          (let a = \<bar>x\<bar>;
               e = (if a = 0 then 0 else \<lfloor>log 10 a\<rfloor>);
               f = fraction_digits (a / 10 powi e) 0;
               n = nat \<lfloor>a / 10 powi e * 10 ^ f\<rfloor>;
               m = digits_of n
           in (if x < 0 then ''-'' else [])
              @ (if f \<noteq> 0 then hd m # CHR ''.'' # tl m else m)
              @ ''e'' @ (if e < 0 then ''-'' else ''+'') @ digits_of (nat \<bar>e\<bar>)))"

subsection \<open>countSignificantDigits\<close>

text \<open>The loop over the characters of \<^verbatim>\<open>digits\<close>, with its two variables.\<close>

fun count_loop :: "string \<Rightarrow> int \<Rightarrow> bool \<Rightarrow> int" where
  "count_loop [] count foundNonZero = count"
| "count_loop (digit # rest) count foundNonZero =
     (let foundNonZero' = (if digit \<noteq> CHR ''0'' then True else foundNonZero);
          count' = (if foundNonZero' then count + 1 else count)
      in count_loop rest count' foundNonZero')"

definition countSignificantDigits :: "jsnum \<Rightarrow> int" where
  "countSignificantDigits val =
     (if \<not> isFinite val \<or> js_eq val (Fin 0) then 0
      else
        let absValue = \<bar>val\<bar>;
            str = toExponential absValue;
            mantissa = takeWhile (\<lambda>c. c \<noteq> CHR ''e'') str;
            digits = remove1 (CHR ''-'') (remove1 (CHR ''.'') mantissa)
        in count_loop digits 0 False)"

subsection \<open>Rounding\<close>

definition roundToSignificantDigits :: "jsnum \<Rightarrow> int \<Rightarrow> jsnum" where
  "roundToSignificantDigits val sigDigits =
     (if \<not> isFinite val \<or> js_eq val (Fin 0) \<or> sigDigits \<le> 0 then val
      else
        let absValue = \<bar>val\<bar>;
            magnitude = Math_floor (Math_log10 absValue);
            scale = Math_pow10 (magnitude - Fin (of_int sigDigits) + Fin 1)
        in Math_round (val / scale) * scale)"

definition roundToHalfSignificantDigits :: "jsnum \<Rightarrow> int \<Rightarrow> jsnum" where
  "roundToHalfSignificantDigits val sigDigits =
     (if \<not> isFinite val \<or> js_eq val (Fin 0) \<or> sigDigits \<le> 0 then val
      else
        let absValue = \<bar>val\<bar>;
            magnitude = Math_floor (Math_log10 absValue);
            scale = Math_pow10 (magnitude - Fin (of_int sigDigits) + Fin 1);
            normalized = val / scale;
            rounded = Math_round (normalized * Fin 2) / Fin 2
        in rounded * scale)"

section \<open>Scaling (scaling.ts)\<close>

text \<open>An options object: a field that is absent is \<open>None\<close> and takes its default where
  the function destructures the object.\<close>

definition orDefault :: "'a option \<Rightarrow> 'a \<Rightarrow> 'a" where
  "orDefault field d = (case field of None \<Rightarrow> d | Some x \<Rightarrow> x)"

record ScaleOptions =
  preserveSignificantDigits :: "bool option"
  minSignificantDigits :: "int option"
  maxSignificantDigits :: "int option"

definition noScaleOptions :: ScaleOptions where
  "noScaleOptions =
     \<lparr>preserveSignificantDigits = None, minSignificantDigits = None, maxSignificantDigits = None\<rparr>"

definition scaleNumber :: "jsnum \<Rightarrow> jsnum \<Rightarrow> ScaleOptions \<Rightarrow> jsnum" where
  "scaleNumber val ratio options =
     (let preserve = orDefault (preserveSignificantDigits options) True;
          minDigits = orDefault (minSignificantDigits options) 1;
          maxDigits = orDefault (maxSignificantDigits options) 15;
          scaled = val * ratio
      in if \<not> preserve then scaled
         else
           let originalSigDigits = countSignificantDigits val;
               targetSigDigits = max minDigits (min maxDigits originalSigDigits)
           in roundToSignificantDigits scaled targetSigDigits)"

definition scaleNumberInverse :: "jsnum \<Rightarrow> jsnum \<Rightarrow> ScaleOptions \<Rightarrow> jsnum" where
  "scaleNumberInverse val ratio options = scaleNumber val (Fin 1 / ratio) options"

section \<open>Scale generation (scales.ts)\<close>

datatype ScaleProgression = Linear | Exponential | Friendly

datatype ScaleRounding = RoundNone | RoundSignificant | RoundHalf | RoundFriendly

record GenerateScaleOptions =
  progression :: "ScaleProgression option"
  rounding :: "ScaleRounding option"
  significantDigits :: "int option"
  steps :: "int option"
  includeStart :: "bool option"
  includeEnd :: "bool option"

definition noOptions :: GenerateScaleOptions where
  "noOptions =
     \<lparr>progression = None, rounding = None, significantDigits = None, steps = None,
      includeStart = None, includeEnd = None\<rparr>"

datatype error = InvalidRange

definition roundToFriendlyNumber :: "jsnum \<Rightarrow> jsnum" where
  "roundToFriendlyNumber val =
     (if js_eq val (Fin 0) then Fin 0
      else
        let absValue = \<bar>val\<bar>;
            magnitude = Math_floor (Math_log10 absValue);
            normalized = absValue / Math_pow10 magnitude;
            friendly =
              (if normalized \<le> Fin 1 then Fin 1
               else if normalized \<le> Fin 2 then Fin 2
               else if normalized \<le> Fin (5 / 2) then Fin (5 / 2)
               else if normalized \<le> Fin 5 then Fin 5
               else Fin 10);
            result = friendly * Math_pow10 magnitude
        in if val < Fin 0 then - result else result)"

fun applyRounding :: "jsnum \<Rightarrow> ScaleRounding \<Rightarrow> int \<Rightarrow> jsnum" where
  "applyRounding val RoundNone sigDigits = val"
| "applyRounding val RoundSignificant sigDigits = roundToSignificantDigits val sigDigits"
| "applyRounding val RoundHalf sigDigits = roundToHalfSignificantDigits val sigDigits"
| "applyRounding val RoundFriendly sigDigits = roundToFriendlyNumber val"

text \<open>\<^verbatim>\<open>[...new Set(scale)]\<close>: the distinct values in the order of their first
  occurrence. A \<^verbatim>\<open>Set\<close> compares with SameValueZero, under which \<^verbatim>\<open>NaN\<close> equals itself.\<close>

definition Set_of :: "jsnum list \<Rightarrow> jsnum list" where
  "Set_of xs = foldl (\<lambda>s x. if x \<in> set s then s else s @ [x]) [] xs"

text \<open>\<^verbatim>\<open>sort((a, b) => a - b)\<close>: a stable sort by the sign of the comparator, where a
  comparator result \<^verbatim>\<open>NaN\<close> counts as \<open>0\<close>. Insertion from the right is such a sort; when
  no element is \<^verbatim>\<open>NaN\<close> the comparator is consistent and every conforming sort returns
  the same array.\<close>

fun insert_sorted :: "jsnum \<Rightarrow> jsnum list \<Rightarrow> jsnum list" where
  "insert_sorted a [] = [a]"
| "insert_sorted a (b # bs) = (if Fin 0 < a - b then b # insert_sorted a bs else a # b # bs)"

definition sort_numeric :: "jsnum list \<Rightarrow> jsnum list" where
  "sort_numeric xs = foldr insert_sorted xs []"

text \<open>The multiplier chosen in an iteration of the friendly progression.\<close>

definition nextMultiplier :: "jsnum \<Rightarrow> jsnum" where
  "nextMultiplier current =
     (let magnitude = Math_floor (Math_log10 current);
          normalized = current / Math_pow10 magnitude
      in if normalized < Fin (3 / 2) then Fin 2
         else if normalized < Fin (9 / 4) then Fin (5 / 2)
         else if normalized < Fin 4 then Fin 2
         else if normalized < Fin (15 / 2) then Fin 2
         else Fin 2)"

definition friendly_next :: "jsnum \<Rightarrow> jsnum" where
  "friendly_next current = roundToFriendlyNumber (current * nextMultiplier current)"

text \<open>The \<^verbatim>\<open>while (current < end)\<close> loop of the friendly progression. It need not
  end, so the result is an option: \<open>None\<close> is a loop that runs forever. The loop starts
  from \<^verbatim>\<open>start\<close> itself, not from its friendly rounding. The variables \<^verbatim>\<open>logStart\<close>,
  \<^verbatim>\<open>logEnd\<close>, \<^verbatim>\<open>range\<close>, \<^verbatim>\<open>friendlyMultipliers\<close> and \<^verbatim>\<open>multiplierIndex\<close> of this branch
  are never read.\<close>

partial_function (option) friendly_loop :: "jsnum \<Rightarrow> jsnum \<Rightarrow> bool \<Rightarrow> jsnum list \<Rightarrow> jsnum list option" where
  "friendly_loop current endVal inclEnd scale =
     (if current < endVal then
        friendly_loop (friendly_next current) endVal inclEnd
          (if friendly_next current < endVal then scale @ [friendly_next current]
           else if inclEnd then scale @ [roundToFriendlyNumber endVal]
           else scale)
      else Some scale)"

definition generateScale :: "jsnum \<Rightarrow> jsnum \<Rightarrow> GenerateScaleOptions \<Rightarrow> (error + jsnum list) option" where
  "generateScale start endVal options =
     (let prog = orDefault (progression options) Friendly;
          rnd = orDefault (rounding options) RoundFriendly;
          sigDigits = orDefault (significantDigits options) 2;
          nsteps = orDefault (steps options) 10;
          inclStart = orDefault (includeStart options) True;
          inclEnd = orDefault (includeEnd options) True
      in if start \<ge> endVal then Some (Inl InvalidRange)
         else
           map_option (\<lambda>scale. Inr (sort_numeric (Set_of scale)))
             (if prog = Linear then
                let step = (endVal - start) / Fin (of_int (nsteps + 1))
                in Some
                     ((if inclStart then [applyRounding start rnd sigDigits] else [])
                      @ map (\<lambda>i. applyRounding (start + step * Fin (of_int i)) rnd sigDigits)
                          [1..nsteps]
                      @ (if inclEnd then [applyRounding endVal rnd sigDigits] else []))
              else if prog = Exponential then
                let logStart = Math_log10 start;
                    logEnd = Math_log10 endVal;
                    logStep = (logEnd - logStart) / Fin (of_int (nsteps + 1))
                in Some
                     ((if inclStart then [applyRounding start rnd sigDigits] else [])
                      @ map (\<lambda>i. applyRounding (Math_pow10 (logStart + logStep * Fin (of_int i)))
                                  rnd sigDigits)
                          [1..nsteps]
                      @ (if inclEnd then [applyRounding endVal rnd sigDigits] else []))
              else
                friendly_loop start endVal inclEnd
                  (if inclStart then [roundToFriendlyNumber start] else [])))"

text \<open>The friendly progression of \<^verbatim>\<open>generateScaleFromBaseline\<close>: the loop variables
  are \<^verbatim>\<open>current\<close>, \<^verbatim>\<open>multiplierIndex\<close> and the array.\<close>

fun baseline_loop :: "int list \<Rightarrow> ScaleRounding \<Rightarrow> int \<Rightarrow> jsnum \<Rightarrow> nat \<Rightarrow> jsnum list \<Rightarrow> jsnum list" where
  "baseline_loop [] rnd sigDigits current multiplierIndex scale = scale"
| "baseline_loop (i # is) rnd sigDigits current multiplierIndex scale =
     (let current' = current * ([Fin 2, Fin (5 / 2), Fin 2] ! (multiplierIndex mod 3))
      in baseline_loop is rnd sigDigits current' (multiplierIndex + 1)
           (scale @ [applyRounding current' rnd sigDigits]))"

definition generateScaleFromBaseline :: "jsnum \<Rightarrow> int \<Rightarrow> GenerateScaleOptions \<Rightarrow> jsnum list" where
  "generateScaleFromBaseline baseline count options =
     (let prog = orDefault (progression options) Friendly;
          rnd = orDefault (rounding options) RoundFriendly;
          sigDigits = orDefault (significantDigits options) 2;
          scale = [applyRounding baseline rnd sigDigits]
      in if prog = Linear then
           scale @ map (\<lambda>i. applyRounding (baseline * Fin (of_int (i + 1))) rnd sigDigits)
                     [1..count - 1]
         else if prog = Exponential then
           scale @ map (\<lambda>i. applyRounding (baseline * Math_pow10 (Fin (of_int i))) rnd sigDigits)
                     [1..count - 1]
         else baseline_loop [1..count - 1] rnd sigDigits baseline 0 scale)"

section \<open>Magnitude and powers of ten\<close>

lemma pow10_of_int: "(10::real) powr (of_int k) = 10 powi k"
  by (simp add: powr_real_of_int')

lemma floor_log10_eq: 
  assumes "10 powi k \<le> x" "x < 10 powi (k + 1)"
  shows "\<lfloor>log 10 x\<rfloor> = k"
proof -
  have "0 < (10::real) powi k" by simp
  with assms have x: "0 < x" by linarith
  have "(10::real) powr (of_int k + 1) = 10 powr (of_int (k + 1))" by simp
  also have "\<dots> = 10 powi (k + 1)" by (rule pow10_of_int)
  finally have "(10::real) powr (of_int k + 1) = 10 powi (k + 1)" .
  with assms x show ?thesis
    by (simp add: floor_log_eq_powr_iff pow10_of_int)
qed

lemma magnitude_bounds:
  assumes "0 < x"
  shows "10 powi \<lfloor>log 10 x\<rfloor> \<le> x" and "x < 10 powi (\<lfloor>log 10 x\<rfloor> + 1)"
proof -
  have "\<lfloor>log 10 x\<rfloor> = \<lfloor>log 10 x\<rfloor>" ..
  then have b: "10 powr (of_int \<lfloor>log 10 x\<rfloor>) \<le> x \<and> x < 10 powr (of_int \<lfloor>log 10 x\<rfloor> + 1)"
    using assms floor_log_eq_powr_iff[of x 10 "\<lfloor>log 10 x\<rfloor>"] by simp
  have "(10::real) powr (of_int \<lfloor>log 10 x\<rfloor> + 1) = 10 powr (of_int (\<lfloor>log 10 x\<rfloor> + 1))" by simp
  also have "\<dots> = 10 powi (\<lfloor>log 10 x\<rfloor> + 1)" by (rule pow10_of_int)
  finally have e: "(10::real) powr (of_int \<lfloor>log 10 x\<rfloor> + 1) = 10 powi (\<lfloor>log 10 x\<rfloor> + 1)" .
  from b show "10 powi \<lfloor>log 10 x\<rfloor> \<le> x" by (simp add: pow10_of_int)
  from b e show "x < 10 powi (\<lfloor>log 10 x\<rfloor> + 1)" by simp
qed

lemma magnitude_Fin:
  "x \<noteq> 0 \<Longrightarrow> Math_floor (Math_log10 \<bar>Fin x\<bar>) = Fin (of_int \<lfloor>log 10 \<bar>x\<bar>\<rfloor>)"
  by simp

lemma scale_Fin:
  "Math_pow10 (Fin (of_int m) - Fin (of_int n) + Fin 1) = Fin (10 powi (m - n + 1))"
proof -
  have "Fin (of_int m) - Fin (of_int n) + Fin 1 = Fin (of_int (m - n + 1))"
    by (simp add: minus_jsnum_def)
  then show ?thesis by (simp only: Math_pow10.simps pow10_of_int)
qed

lemma roundToSignificantDigits_Fin:
  assumes "x \<noteq> 0" "0 < n"
  shows "roundToSignificantDigits (Fin x) n =
           Fin (of_int (round (x / 10 powi (\<lfloor>log 10 \<bar>x\<bar>\<rfloor> - n + 1))) * 10 powi (\<lfloor>log 10 \<bar>x\<bar>\<rfloor> - n + 1))"
proof -
  have nz: "(10::real) powi (\<lfloor>log 10 \<bar>x\<bar>\<rfloor> - n + 1) \<noteq> 0" by simp
  show ?thesis
    unfolding roundToSignificantDigits_def Let_def magnitude_Fin[OF assms(1)] scale_Fin
    using assms nz by (simp add: js_eq_def)
qed




section \<open>Rounding to significant digits\<close>



subsection \<open>Negative inputs\<close>






section \<open>Counting significant digits\<close>

lemma digit_char_in: "d < 10 \<Longrightarrow> digit_char d \<in> set ''0123456789''"
  unfolding digit_char_def by (rule nth_mem) simp

lemma digit_char_zero: "d < 10 \<Longrightarrow> digit_char d = CHR ''0'' \<longleftrightarrow> d = 0"
proof -
  assume "d < 10"
  then have "d \<in> {0, 1, 2, 3, 4, 5, 6, 7, 8, 9}" by auto
  then show ?thesis by (auto simp: digit_char_def)
qed

lemma digits_of_chars: "set (digits_of n) \<subseteq> set ''0123456789''"
proof (induction n rule: digits_of.induct)
  case (1 n)
  show ?case
  proof (cases "n < 10")
    case True
    then show ?thesis using digit_char_in[of n] by (subst digits_of.simps) simp
  next
    case False
    have "n mod 10 < 10" by simp
    then have "digit_char (n mod 10) \<in> set ''0123456789''" by (rule digit_char_in)
    with False 1 show ?thesis by (subst digits_of.simps) simp
  qed
qed

lemma digits_of_length: "10 ^ f \<le> n \<Longrightarrow> n < 10 ^ (f + 1) \<Longrightarrow> length (digits_of n) = f + 1"
proof (induction f arbitrary: n)
  case 0
  then show ?case by (subst digits_of.simps) simp
next
  case (Suc f)
  have "(1::nat) \<le> 10 ^ f" by simp
  then have "(10::nat) \<le> 10 ^ Suc f" by simp
  with Suc.prems(1) have n: "\<not> n < 10" by linarith
  have "10 ^ f \<le> n div 10" using Suc.prems(1) by (simp add: less_eq_div_iff_mult_less_eq)
  moreover have "n div 10 < 10 ^ (f + 1)" using Suc.prems(2) by (simp add: div_less_iff_less_mult)
  ultimately have "length (digits_of (n div 10)) = f + 1" by (rule Suc.IH)
  with n show ?case by (subst digits_of.simps) simp
qed

lemma digits_of_hd: "0 < n \<Longrightarrow> digits_of n \<noteq> [] \<and> hd (digits_of n) \<noteq> CHR ''0''"
proof (induction n rule: digits_of.induct)
  case (1 n)
  show ?case
  proof (cases "n < 10")
    case True
    with 1(2) show ?thesis by (subst (1 2) digits_of.simps) (simp add: digit_char_zero)
  next
    case False
    then have "0 < n div 10" by simp
    with False 1 have "digits_of (n div 10) \<noteq> [] \<and> hd (digits_of (n div 10)) \<noteq> CHR ''0''"
      by simp
    with False show ?thesis by (subst (1 2) digits_of.simps) simp
  qed
qed

lemma count_loop_found: "count_loop cs c True = c + int (length cs)"
  by (induction cs arbitrary: c) simp_all

lemma count_loop_digits:
  "cs \<noteq> [] \<Longrightarrow> hd cs \<noteq> CHR ''0'' \<Longrightarrow> count_loop cs 0 False = int (length cs)"
  by (cases cs) (simp_all add: count_loop_found)

lemma is_integer_floor_ceiling: "is_integer y \<longleftrightarrow> \<lfloor>y\<rfloor> = \<lceil>y\<rceil>"
  unfolding is_integer_def by (metis ceiling_of_int floor_of_int of_int_floor_cancel ceiling_altdef zle_add1_eq_le less_irrefl zless_add1_eq)

lemma mantissa_range:
  assumes "0 < a"
  shows "1 \<le> a / 10 powi \<lfloor>log 10 a\<rfloor>" and "a / 10 powi \<lfloor>log 10 a\<rfloor> < 10"
proof -
  have p: "0 < (10::real) powi \<lfloor>log 10 a\<rfloor>" by simp
  from magnitude_bounds(1)[OF assms] p show "1 \<le> a / 10 powi \<lfloor>log 10 a\<rfloor>"
    by (simp add: le_divide_eq)
  have "(10::real) powi (\<lfloor>log 10 a\<rfloor> + 1) = 10 powi \<lfloor>log 10 a\<rfloor> * 10"
    by (simp add: power_int_add)
  with magnitude_bounds(2)[OF assms] p show "a / 10 powi \<lfloor>log 10 a\<rfloor> < 10"
    by (simp add: divide_less_eq mult.commute)
qed

lemma mantissa_int_range:
  fixes m :: real
  assumes "1 \<le> m" "m < 10"
  shows "10 ^ f \<le> nat \<lfloor>m * 10 ^ f\<rfloor>" and "nat \<lfloor>m * 10 ^ f\<rfloor> < 10 ^ (f + 1)"
proof -
  have "(10::real) ^ f \<le> m * 10 ^ f" using assms(1) by simp
  then have "of_int (10 ^ f) \<le> m * 10 ^ f" by simp
  then have "(10::int) ^ f \<le> \<lfloor>m * 10 ^ f\<rfloor>" by (simp only: le_floor_iff)
  then show "10 ^ f \<le> nat \<lfloor>m * 10 ^ f\<rfloor>" by (simp add: le_nat_iff)
  have "m * 10 ^ f < 10 ^ (f + 1)" using assms(2) by simp
  then have "m * 10 ^ f < of_int (10 ^ (f + 1))" by simp
  then have "\<lfloor>m * 10 ^ f\<rfloor> < 10 ^ (f + 1)" by (simp only: floor_less_iff)
  moreover have "0 \<le> \<lfloor>m * 10 ^ f\<rfloor>" using assms(1) by simp
  ultimately show "nat \<lfloor>m * 10 ^ f\<rfloor> < 10 ^ (f + 1)" by (simp add: nat_less_iff)
qed

lemma takeWhile_mantissa:
  "CHR ''e'' \<notin> set cs \<Longrightarrow> takeWhile (\<lambda>c. c \<noteq> CHR ''e'') (cs @ CHR ''e'' # rest) = cs"
  by (induction cs) auto

lemma toExponential_mantissa:
  assumes "0 < a"
  shows "\<exists>ds. takeWhile (\<lambda>c. c \<noteq> CHR ''e'') (toExponential (Fin a)) =
                (if fraction_digits (a / 10 powi \<lfloor>log 10 a\<rfloor>) 0 \<noteq> 0
                 then hd ds # CHR ''.'' # tl ds else ds) \<and>
              ds \<noteq> [] \<and> hd ds \<noteq> CHR ''0'' \<and> set ds \<subseteq> set ''0123456789'' \<and>
              length ds = fraction_digits (a / 10 powi \<lfloor>log 10 a\<rfloor>) 0 + 1"
proof -
  define e where "e = \<lfloor>log 10 a\<rfloor>"
  define f where "f = fraction_digits (a / 10 powi e) 0"
  define ds where "ds = digits_of (nat \<lfloor>a / 10 powi e * 10 ^ f\<rfloor>)"
  define mant where "mant = (if f \<noteq> 0 then hd ds # CHR ''.'' # tl ds else ds)"
  have m: "1 \<le> a / 10 powi e" "a / 10 powi e < 10"
    using mantissa_range[OF assms] by (simp_all add: e_def)
  have n: "10 ^ f \<le> nat \<lfloor>a / 10 powi e * 10 ^ f\<rfloor>" "nat \<lfloor>a / 10 powi e * 10 ^ f\<rfloor> < 10 ^ (f + 1)"
    using mantissa_int_range[OF m] by simp_all
  have len: "length ds = f + 1" unfolding ds_def using n by (rule digits_of_length)
  have "0 < nat \<lfloor>a / 10 powi e * 10 ^ f\<rfloor>"
    using n(1) by (metis less_le_trans zero_less_numeral zero_less_power)
  then have hd: "ds \<noteq> []" "hd ds \<noteq> CHR ''0''" unfolding ds_def using digits_of_hd by simp_all
  have chars: "set ds \<subseteq> set ''0123456789''" unfolding ds_def by (rule digits_of_chars)
  then have no: "CHR ''e'' \<notin> set ds" by auto
  have ds: "ds = hd ds # tl ds" using hd(1) by simp
  have "hd ds \<noteq> CHR ''e''" "CHR ''e'' \<notin> set (tl ds)"
    using no ds by (metis list.set_intros(1), metis list.set_intros(2))
  then have e_mant: "CHR ''e'' \<notin> set mant" using no by (simp add: mant_def)
  have str: "toExponential (Fin a) =
               mant @ CHR ''e'' # (if e < 0 then ''-'' else ''+'') @ digits_of (nat \<bar>e\<bar>)"
    unfolding mant_def ds_def f_def e_def using assms
    by (simp add: toExponential_def Let_def)
  have "takeWhile (\<lambda>c. c \<noteq> CHR ''e'') (toExponential (Fin a)) = mant"
    unfolding str using e_mant by (rule takeWhile_mantissa)
  with hd chars len show ?thesis unfolding mant_def f_def e_def by blast
qed

lemma countSignificantDigits_Fin:
  assumes "x \<noteq> 0"
  shows "countSignificantDigits (Fin x) =
           1 + int (fraction_digits (\<bar>x\<bar> / 10 powi \<lfloor>log 10 \<bar>x\<bar>\<rfloor>) 0)"
    and "countSignificantDigits (Fin x) =
           int (length (filter (\<lambda>c. c \<noteq> CHR ''.'')
                  (takeWhile (\<lambda>c. c \<noteq> CHR ''e'') (toExponential (Fin \<bar>x\<bar>)))))"
proof -
  define f where "f = fraction_digits (\<bar>x\<bar> / 10 powi \<lfloor>log 10 \<bar>x\<bar>\<rfloor>) 0"
  define mant where "mant = takeWhile (\<lambda>c. c \<noteq> CHR ''e'') (toExponential (Fin \<bar>x\<bar>))"
  have "0 < \<bar>x\<bar>" using assms by simp
  from toExponential_mantissa[OF this] obtain ds where
    tw: "mant = (if f \<noteq> 0 then hd ds # CHR ''.'' # tl ds else ds)" and
    hd: "ds \<noteq> []" "hd ds \<noteq> CHR ''0''" and chars: "set ds \<subseteq> set ''0123456789''" and
    len: "length ds = f + 1"
    unfolding f_def mant_def by blast
  from chars have no: "CHR ''.'' \<notin> set ds" "CHR ''-'' \<notin> set ds" by auto
  have ds: "ds = hd ds # tl ds" using hd(1) by simp
  have hdno: "hd ds \<noteq> CHR ''.''" "CHR ''.'' \<notin> set (tl ds)"
    using no ds by (metis list.set_intros(1), metis list.set_intros(2))
  have "remove1 (CHR ''.'') mant = ds"
  proof (cases "f = 0")
    case True
    then show ?thesis using no(1) by (simp add: tw remove1_idem)
  next
    case False
    then have "remove1 (CHR ''.'') mant = hd ds # tl ds" using hdno(1) by (simp add: tw)
    with ds show ?thesis by simp
  qed
  then have "remove1 (CHR ''-'') (remove1 (CHR ''.'') mant) = ds"
    using no(2) by (simp add: remove1_idem)
  then have "countSignificantDigits (Fin x) = count_loop ds 0 False"
    using assms by (simp add: countSignificantDigits_def js_eq_def Let_def mant_def)
  also have "\<dots> = int (length ds)" using hd by (rule count_loop_digits)
  finally have c: "countSignificantDigits (Fin x) = int (length ds)" .
  then show "countSignificantDigits (Fin x) =
          1 + int (fraction_digits (\<bar>x\<bar> / 10 powi \<lfloor>log 10 \<bar>x\<bar>\<rfloor>) 0)"
    by (simp add: len f_def)
  have "filter (\<lambda>c. c \<noteq> CHR ''.'') (tl ds) = tl ds"
    using hdno(2) by (auto simp: filter_id_conv)
  then have "filter (\<lambda>c. c \<noteq> CHR ''.'') (hd ds # CHR ''.'' # tl ds) = hd ds # tl ds"
    using hdno(1) by simp
  moreover have "filter (\<lambda>c. c \<noteq> CHR ''.'') ds = ds"
    using no(1) by (auto simp: filter_id_conv)
  ultimately have "filter (\<lambda>c. c \<noteq> CHR ''.'') mant = ds"
    using ds unfolding tw by (cases "f = 0") simp_all
  with c show "countSignificantDigits (Fin x) =
           int (length (filter (\<lambda>c. c \<noteq> CHR ''.'')
                  (takeWhile (\<lambda>c. c \<noteq> CHR ''e'') (toExponential (Fin \<bar>x\<bar>)))))"
    by (simp add: mant_def)
qed

lemma countSignificantDigits_zero_iff:
  "countSignificantDigits v = 0 \<longleftrightarrow> v = Fin 0 \<or> v = NaN \<or> v = PInf \<or> v = NInf"
proof (cases v)
  case (Fin x)
  show ?thesis
  proof (cases "x = 0")
    case True
    with Fin show ?thesis by (simp add: countSignificantDigits_def js_eq_def)
  next
    case False
    with Fin show ?thesis by (simp add: countSignificantDigits_Fin)
  qed
qed (simp_all add: countSignificantDigits_def)

lemma countSignificantDigits_1000: "countSignificantDigits (Fin 1000) = 1"
  using floor_log10_eq[of 3 1000]
  by (simp add: countSignificantDigits_Fin fraction_digits.simps is_integer_floor_ceiling)

lemma countSignificantDigits_1200: "countSignificantDigits (Fin 1200) = 2"
  using floor_log10_eq[of 3 1200]
  by (simp add: countSignificantDigits_Fin fraction_digits.simps is_integer_floor_ceiling)

lemma countSignificantDigits_small: "countSignificantDigits (Fin (12 / 100000)) = 2"
  using floor_log10_eq[of "-4" "12 / 100000"]
  by (simp add: countSignificantDigits_Fin fraction_digits.simps is_integer_floor_ceiling)


text \<open>
  C4: \<^verbatim>\<open>countSignificantDigits(value)\<close> is \<open>0\<close> exactly when the value is zero, \<^verbatim>\<open>NaN\<close> or
  infinite. For a finite non-zero value it is positive and counts every digit of the
  mantissa of the exponential form (the characters before \<^verbatim>\<open>e\<close> other than the point):
  the leading digit, which is not zero, and all the digits after the point. So \<open>1000\<close>
  has one significant digit, \<open>1200\<close> two and \<open>0.00012\<close> two.
\<close>

theorem countSignificantDigits_spec:
  "(countSignificantDigits v = 0 \<longleftrightarrow> v = Fin 0 \<or> v = NaN \<or> v = PInf \<or> v = NInf) \<and>
   (x \<noteq> 0 \<longrightarrow>
      0 < countSignificantDigits (Fin x) \<and>
      countSignificantDigits (Fin x) =
        int (length (filter (\<lambda>c. c \<noteq> CHR ''.'')
               (takeWhile (\<lambda>c. c \<noteq> CHR ''e'') (toExponential (Fin \<bar>x\<bar>))))) \<and>
      countSignificantDigits (Fin x) =
        1 + int (fraction_digits (\<bar>x\<bar> / 10 powi \<lfloor>log 10 \<bar>x\<bar>\<rfloor>) 0)) \<and>
   countSignificantDigits (Fin 1000) = 1 \<and>
   countSignificantDigits (Fin 1200) = 2 \<and>
   countSignificantDigits (Fin (12 / 100000)) = 2"
proof -
  have "0 < countSignificantDigits (Fin x)" if "x \<noteq> 0"
    using countSignificantDigits_Fin(1)[OF that] by simp
  then show ?thesis
    using countSignificantDigits_zero_iff[of v] countSignificantDigits_Fin[of x]
      countSignificantDigits_1000 countSignificantDigits_1200 countSignificantDigits_small
    by blast
qed

theorem countSignificantDigits_spec_witness:
  "countSignificantDigits NaN = 0 \<and> countSignificantDigits (Fin (-1234)) = 4 \<and>
   toExponential (Fin 1234) = ''1.234e+3''"
proof -
  have m: "\<lfloor>log 10 (1234::real)\<rfloor> = 3" using floor_log10_eq[of 3 1234] by simp
  have "toExponential (Fin 1234) = ''1.234e+3''"
    using m by (simp add: toExponential_def Let_def fraction_digits.simps
        is_integer_floor_ceiling digits_of.simps digit_char_def)
  then show ?thesis
    using countSignificantDigits_spec[of NaN "-1234"] by simp
qed

section \<open>Scaling\<close>

lemma countSignificantDigits_7: "countSignificantDigits (Fin 7) = 1"
  using floor_log10_eq[of 0 7]
  by (simp add: countSignificantDigits_Fin fraction_digits.simps is_integer_floor_ceiling)

lemma scaleNumber_days: "scaleNumber (Fin 7) (Fin (36525 / 100)) noScaleOptions = Fin 3000"
  using floor_log10_eq[of 3 "255675 / 100"]
  by (simp add: scaleNumber_def noScaleOptions_def orDefault_def Let_def countSignificantDigits_7
      roundToSignificantDigits_Fin round_def)

text \<open>
  C5: with \<^verbatim>\<open>preserveSignificantDigits: false\<close> the result of \<^verbatim>\<open>scaleNumber\<close> is the product
  \<^verbatim>\<open>value * ratio\<close>. Otherwise it is the product rounded to \<^verbatim>\<open>targetSigDigits\<close>, which is
  \<^verbatim>\<open>Math.max(min, Math.min(max, countSignificantDigits(value)))\<close> with the defaults 1 and
  15; for \<open>min \<le> max\<close> that number lies in \<open>[min, max]\<close> and is the count itself when
  the count lies there. \<^verbatim>\<open>scaleNumber(7, 365.25)\<close> is \<open>3000\<close>.
\<close>

theorem scaleNumber_spec:
  "(preserveSignificantDigits options = Some False \<longrightarrow> scaleNumber v ratio options = v * ratio) \<and>
   (preserveSignificantDigits options \<noteq> Some False \<longrightarrow>
      scaleNumber v ratio options =
        roundToSignificantDigits (v * ratio)
          (max (orDefault (minSignificantDigits options) 1)
             (min (orDefault (maxSignificantDigits options) 15) (countSignificantDigits v)))) \<and>
   (lo \<le> hi \<longrightarrow>
      lo \<le> max lo (min hi (countSignificantDigits v)) \<and>
      max lo (min hi (countSignificantDigits v)) \<le> hi \<and>
      (lo \<le> countSignificantDigits v \<and> countSignificantDigits v \<le> hi \<longrightarrow>
         max lo (min hi (countSignificantDigits v)) = countSignificantDigits v)) \<and>
   scaleNumber (Fin 7) (Fin (36525 / 100)) noScaleOptions = Fin 3000"
proof -
  have "scaleNumber v ratio options = v * ratio" if "preserveSignificantDigits options = Some False"
    using that by (simp add: scaleNumber_def orDefault_def)
  moreover have "scaleNumber v ratio options =
        roundToSignificantDigits (v * ratio)
          (max (orDefault (minSignificantDigits options) 1)
             (min (orDefault (maxSignificantDigits options) 15) (countSignificantDigits v)))"
    if "preserveSignificantDigits options \<noteq> Some False"
    using that by (cases "preserveSignificantDigits options") (simp_all add: scaleNumber_def orDefault_def)
  ultimately show ?thesis using scaleNumber_days by auto
qed

theorem scaleNumber_spec_witness:
  "scaleNumber (Fin 7) (Fin (36525 / 100)) (noScaleOptions\<lparr>preserveSignificantDigits := Some False\<rparr>)
     = Fin (255675 / 100) \<and>
   scaleNumber (Fin 1200) (Fin 3) (noScaleOptions\<lparr>minSignificantDigits := Some 1, maxSignificantDigits := Some 3\<rparr>)
     = Fin 3600"
proof -
  have m: "\<lfloor>log 10 (3600::real)\<rfloor> = 3" using floor_log10_eq[of 3 3600] by simp
  show ?thesis
    using scaleNumber_spec[of "noScaleOptions\<lparr>preserveSignificantDigits := Some False\<rparr>" "Fin 7" "Fin (36525 / 100)" 1 3]
      scaleNumber_spec[of "noScaleOptions\<lparr>minSignificantDigits := Some 1, maxSignificantDigits := Some 3\<rparr>" "Fin 1200" "Fin 3" 1 3]
      m
    by (simp add: noScaleOptions_def orDefault_def countSignificantDigits_1200 roundToSignificantDigits_Fin round_def)
qed




section \<open>Friendly numbers\<close>

lemma roundToFriendlyNumber_pos:
  assumes "0 < x"
  shows "roundToFriendlyNumber (Fin x) =
           Fin ((if x / 10 powi \<lfloor>log 10 x\<rfloor> \<le> 1 then 1
                 else if x / 10 powi \<lfloor>log 10 x\<rfloor> \<le> 2 then 2
                 else if x / 10 powi \<lfloor>log 10 x\<rfloor> \<le> 5 / 2 then 5 / 2
                 else if x / 10 powi \<lfloor>log 10 x\<rfloor> \<le> 5 then 5
                 else 10) * 10 powi \<lfloor>log 10 x\<rfloor>)"
  using assms by (simp add: roundToFriendlyNumber_def js_eq_def Let_def pow10_of_int)

lemma roundToFriendlyNumber_neg:
  assumes "x < 0"
  shows "roundToFriendlyNumber (Fin x) = - roundToFriendlyNumber (Fin (- x))"
  using assms by (simp add: roundToFriendlyNumber_def js_eq_def Let_def pow10_of_int)

lemma roundToFriendlyNumber_special [simp]:
  "roundToFriendlyNumber (Fin 0) = Fin 0" "roundToFriendlyNumber NaN = NaN"
  "roundToFriendlyNumber PInf = PInf" "roundToFriendlyNumber NInf = NInf"
  by (simp_all add: roundToFriendlyNumber_def js_eq_def Let_def)

lemma friendly_10: "roundToFriendlyNumber (Fin 10) = Fin 10"
  using floor_log10_eq[of 1 10] by (simp add: roundToFriendlyNumber_pos)
lemma friendly_20: "roundToFriendlyNumber (Fin 20) = Fin 20"
  using floor_log10_eq[of 1 20] by (simp add: roundToFriendlyNumber_pos)
lemma friendly_30: "roundToFriendlyNumber (Fin 30) = Fin 50"
  using floor_log10_eq[of 1 30] by (simp add: roundToFriendlyNumber_pos)
lemma friendly_40: "roundToFriendlyNumber (Fin 40) = Fin 50"
  using floor_log10_eq[of 1 40] by (simp add: roundToFriendlyNumber_pos)
lemma friendly_50: "roundToFriendlyNumber (Fin 50) = Fin 50"
  using floor_log10_eq[of 1 50] by (simp add: roundToFriendlyNumber_pos)
lemma friendly_1: "roundToFriendlyNumber (Fin 1) = Fin 1"
  using floor_log10_eq[of 0 1] by (simp add: roundToFriendlyNumber_pos)
lemma friendly_100: "roundToFriendlyNumber (Fin 100) = Fin 100"
  using floor_log10_eq[of 2 100] by (simp add: roundToFriendlyNumber_pos)
lemma friendly_1000: "roundToFriendlyNumber (Fin 1000) = Fin 1000"
  using floor_log10_eq[of 3 1000] by (simp add: roundToFriendlyNumber_pos)

section \<open>Scales from a baseline\<close>

lemma times_one [simp]: "b * Fin 1 = (b::jsnum)"
  by (cases b) simp_all

lemma baseline_loop_length:
  "length (baseline_loop is rnd n cur k scale) = length scale + length is"
  by (induction "is" arbitrary: cur k scale) (simp_all add: Let_def)

lemma nth_upto_int: "1 \<le> i \<Longrightarrow> i < c \<Longrightarrow> [1..c - 1] ! (nat i - 1) = i"
proof -
  assume a: "1 \<le> i" "i < c"
  have "[1..c - 1] ! (nat (i - 1)) = 1 + int (nat (i - 1))"
    using a by (intro nth_upto) simp
  with a show ?thesis by (simp add: nat_diff_distrib)
qed

lemma generateScaleFromBaseline_length:
  "1 \<le> count \<Longrightarrow> length (generateScaleFromBaseline baseline count options) = nat count"
  by (simp add: generateScaleFromBaseline_def Let_def baseline_loop_length)

lemma generateScaleFromBaseline_linear_nth:
  assumes "progression options = Some Linear" "0 \<le> i" "i < count"
  shows "generateScaleFromBaseline baseline count options ! nat i =
           applyRounding (baseline * Fin (of_int (i + 1)))
             (orDefault (rounding options) RoundFriendly) (orDefault (significantDigits options) 2)"
proof (cases "i = 0")
  case True
  with assms show ?thesis by (simp add: generateScaleFromBaseline_def Let_def orDefault_def)
next
  case False
  with assms have i: "1 \<le> i" "nat i = Suc (nat i - 1)" "nat i - 1 < length [1..count - 1]" by auto
  show ?thesis
    using assms i(1,3) nth_upto_int[OF i(1) assms(3)]
    by (simp add: generateScaleFromBaseline_def Let_def orDefault_def nth_append i(2)[symmetric]
        del: upto.simps)
qed


lemma generateScaleFromBaseline_exponential_nth:
  assumes "progression options = Some Exponential" "0 \<le> i" "i < count"
  shows "generateScaleFromBaseline baseline count options ! nat i =
           applyRounding (baseline * Math_pow10 (Fin (of_int i)))
             (orDefault (rounding options) RoundFriendly) (orDefault (significantDigits options) 2)"
proof (cases "i = 0")
  case True
  with assms show ?thesis by (simp add: generateScaleFromBaseline_def Let_def orDefault_def)
next
  case False
  with assms have i: "1 \<le> i" "nat i = Suc (nat i - 1)" "nat i - 1 < length [1..count - 1]" by auto
  show ?thesis
    using assms i(1,3) nth_upto_int[OF i(1) assms(3)]
    by (simp add: generateScaleFromBaseline_def Let_def orDefault_def nth_append i(2)[symmetric]
        del: upto.simps)
qed

lemma upto_1_4: "[1..4::int] = [1, 2, 3, 4]"
  by code_simp

lemma upto_1_3: "[1..3::int] = [1, 2, 3]"
  by code_simp

lemma generateScaleFromBaseline_linear_none:
  "generateScaleFromBaseline (Fin 10) 5
     (noOptions\<lparr>progression := Some Linear, rounding := Some RoundNone\<rparr>)
   = [Fin 10, Fin 20, Fin 30, Fin 40, Fin 50]"
  by (simp add: generateScaleFromBaseline_def noOptions_def orDefault_def Let_def upto_1_4)

lemma generateScaleFromBaseline_linear_default:
  "generateScaleFromBaseline (Fin 10) 5 (noOptions\<lparr>progression := Some Linear\<rparr>)
   = [Fin 10, Fin 20, Fin 50, Fin 50, Fin 50]"
  by (simp add: generateScaleFromBaseline_def noOptions_def orDefault_def Let_def upto_1_4
      friendly_10 friendly_20 friendly_30 friendly_40 friendly_50)

lemma generateScaleFromBaseline_exponential_default:
  "generateScaleFromBaseline (Fin 1) 4 (noOptions\<lparr>progression := Some Exponential\<rparr>)
   = [Fin 1, Fin 10, Fin 100, Fin 1000]"
  by (simp add: generateScaleFromBaseline_def noOptions_def orDefault_def Let_def upto_1_3
      friendly_1 friendly_10 friendly_100 friendly_1000)

lemma generateScaleFromBaseline_friendly_default:
  "generateScaleFromBaseline (Fin 100) 5 noOptions = [Fin 100, Fin 200, Fin 500, Fin 1000, Fin 2000]"
  using floor_log10_eq[of 2 100] floor_log10_eq[of 2 200] floor_log10_eq[of 2 500]
    floor_log10_eq[of 3 1000] floor_log10_eq[of 3 2000]
  by (simp add: generateScaleFromBaseline_def noOptions_def orDefault_def Let_def upto_1_4
      roundToFriendlyNumber_pos)

text \<open>
  C10, as amended: for \<open>count \<ge> 1\<close>, \<^verbatim>\<open>generateScaleFromBaseline\<close> returns exactly \<open>count\<close>
  values. Every value passes through \<^verbatim>\<open>applyRounding\<close> with the configured rounding, which
  is friendly rounding unless the options say otherwise: the value at index \<open>i\<close> is the
  rounded \<open>baseline * (i + 1)\<close> under the linear and the rounded \<open>baseline * 10 ^ i\<close> under
  the exponential progression. With rounding \<^verbatim>\<open>none\<close> the linear scale from 10 with 5 values
  is 10, 20, 30, 40, 50; the exponential scale from 1 with 4 values is 1, 10, 100, 1000.
\<close>

theorem generateScaleFromBaseline_spec:
  "(1 \<le> count \<longrightarrow> length (generateScaleFromBaseline baseline count options) = nat count) \<and>
   (progression options = Some Linear \<and> 0 \<le> i \<and> i < count \<longrightarrow>
      generateScaleFromBaseline baseline count options ! nat i =
        applyRounding (baseline * Fin (of_int (i + 1)))
          (orDefault (rounding options) RoundFriendly) (orDefault (significantDigits options) 2)) \<and>
   (progression options = Some Exponential \<and> 0 \<le> i \<and> i < count \<longrightarrow>
      generateScaleFromBaseline baseline count options ! nat i =
        applyRounding (baseline * Math_pow10 (Fin (of_int i)))
          (orDefault (rounding options) RoundFriendly) (orDefault (significantDigits options) 2)) \<and>
   generateScaleFromBaseline (Fin 10) 5
       (noOptions\<lparr>progression := Some Linear, rounding := Some RoundNone\<rparr>)
     = [Fin 10, Fin 20, Fin 30, Fin 40, Fin 50] \<and>
   generateScaleFromBaseline (Fin 1) 4 (noOptions\<lparr>progression := Some Exponential\<rparr>)
     = [Fin 1, Fin 10, Fin 100, Fin 1000]"
  using generateScaleFromBaseline_length[of count baseline options]
    generateScaleFromBaseline_linear_nth[of options i count baseline]
    generateScaleFromBaseline_exponential_nth[of options i count baseline]
    generateScaleFromBaseline_linear_none generateScaleFromBaseline_exponential_default
  by blast

theorem generateScaleFromBaseline_spec_witness:
  "length (generateScaleFromBaseline (Fin 100) 5 noOptions) = 5 \<and>
   generateScaleFromBaseline (Fin 10) 5 (noOptions\<lparr>progression := Some Linear\<rparr>) ! 2 = Fin 50 \<and>
   generateScaleFromBaseline (Fin 1) 4 (noOptions\<lparr>progression := Some Exponential\<rparr>) ! 2 = Fin 100"
  using generateScaleFromBaseline_spec[of 5 "Fin 100" noOptions 0]
    generateScaleFromBaseline_spec[of 5 "Fin 10" "noOptions\<lparr>progression := Some Linear\<rparr>" 2]
    generateScaleFromBaseline_spec[of 4 "Fin 1" "noOptions\<lparr>progression := Some Exponential\<rparr>" 2]
  by (simp add: noOptions_def orDefault_def friendly_30 friendly_100)

text \<open>C10 as stated fails for the linear scale under the default rounding, where 30 and 40
  are rounded to the friendly number 50, and at \<open>count = 0\<close>, where the rounded baseline is
  returned.\<close>

theorem generateScaleFromBaseline_counterexample:
  "generateScaleFromBaseline (Fin 10) 5 (noOptions\<lparr>progression := Some Linear\<rparr>)
     \<noteq> [Fin 10, Fin 20, Fin 30, Fin 40, Fin 50] \<and>
   length (generateScaleFromBaseline (Fin 10) 0 (noOptions\<lparr>progression := Some Linear\<rparr>)) \<noteq> 0"
  by (simp add: generateScaleFromBaseline_linear_default)
    (simp add: generateScaleFromBaseline_def Let_def)

section \<open>Scale generation\<close>

subsection \<open>The range check\<close>




subsection \<open>Deduplication and sorting\<close>








lemma js_less_trans: "a < b \<Longrightarrow> b < c \<Longrightarrow> a < (c::jsnum)"
  by (cases a; cases b; cases c) simp_all









lemma roundToHalfSignificantDigits_Fin:
  assumes "x \<noteq> 0" "0 < n"
  shows "roundToHalfSignificantDigits (Fin x) n =
           Fin (of_int (round (x / 10 powi (\<lfloor>log 10 \<bar>x\<bar>\<rfloor> - n + 1) * 2)) / 2
                * 10 powi (\<lfloor>log 10 \<bar>x\<bar>\<rfloor> - n + 1))"
proof -
  have nz: "(10::real) powi (\<lfloor>log 10 \<bar>x\<bar>\<rfloor> - n + 1) \<noteq> 0" by simp
  show ?thesis
    unfolding roundToHalfSignificantDigits_def Let_def magnitude_Fin[OF assms(1)] scale_Fin
    using assms nz by (simp add: js_eq_def)
qed




lemma nextMultiplier_cases: "nextMultiplier c = Fin 2 \<or> nextMultiplier c = Fin (5 / 2)"
  by (simp add: nextMultiplier_def Let_def)











subsection \<open>The loop of the friendly progression\<close>

lemma roundToFriendlyNumber_scaled:
  fixes k :: real
  assumes "1 \<le> k" "k < 10"
  shows "roundToFriendlyNumber (Fin (k * 10 powi m)) =
           Fin ((if k \<le> 1 then 1 else if k \<le> 2 then 2 else if k \<le> 5 / 2 then 5 / 2
                 else if k \<le> 5 then 5 else 10) * 10 powi m)"
proof -
  have p: "0 < (10::real) powi m" by simp
  have "10 powi m \<le> k * 10 powi m" using assms(1) p by simp
  moreover have "k * 10 powi m < 10 powi (m + 1)"
    using assms(2) p by (simp add: power_int_add)
  ultimately have "\<lfloor>log 10 (k * 10 powi m)\<rfloor> = m" by (rule floor_log10_eq)
  moreover have "0 < k * 10 powi m" using assms(1) p by simp
  ultimately show ?thesis by (simp add: roundToFriendlyNumber_pos)
qed

lemma roundToFriendlyNumber_ge:
  assumes "0 < x"
  shows "\<exists>y. roundToFriendlyNumber (Fin x) = Fin y \<and> x \<le> y"
proof -
  define m where "m = \<lfloor>log 10 x\<rfloor>"
  define k where "k = x / 10 powi m"
  have k: "1 \<le> k" "k < 10" using mantissa_range[OF assms] by (simp_all add: k_def m_def)
  have x: "x = k * 10 powi m" by (simp add: k_def)
  have p: "0 < (10::real) powi m" by simp
  have "k \<le> (if k \<le> 1 then 1 else if k \<le> 2 then 2 else if k \<le> 5 / 2 then 5 / 2
                 else if k \<le> 5 then 5 else 10)"
    using k by simp
  then have "k * 10 powi m \<le> (if k \<le> 1 then 1 else if k \<le> 2 then 2 else if k \<le> 5 / 2 then 5 / 2
                 else if k \<le> 5 then 5 else 10) * 10 powi m"
    using p by (simp only: mult_le_cancel_right_pos)
  then show ?thesis
    using roundToFriendlyNumber_scaled[OF k, of m] x by simp
qed


lemma nextMultiplier_other:
  "\<not> (\<exists>x. c = Fin x \<and> 0 < x) \<Longrightarrow> nextMultiplier c = Fin 2"
  by (cases c) (auto simp: nextMultiplier_def Let_def)

lemma friendly_next_zero: "friendly_next (Fin 0) = Fin 0"
  by (simp add: friendly_next_def nextMultiplier_other)

lemma friendly_next_ge:
  assumes "0 < x"
  shows "\<exists>y. friendly_next (Fin x) = Fin y \<and> 2 * x \<le> y"
proof -
  have "\<exists>q. nextMultiplier (Fin x) = Fin q \<and> 2 \<le> q"
    using nextMultiplier_cases[of "Fin x"] by (elim disjE) (rule exI[of _ 2], simp, rule exI[of _ "5 / 2"], simp)
  then obtain q where q: "nextMultiplier (Fin x) = Fin q" "2 \<le> q"
    by blast
  then have "0 < x * q" using assms by simp
  from roundToFriendlyNumber_ge[OF this] obtain y where
    y: "roundToFriendlyNumber (Fin (x * q)) = Fin y" "x * q \<le> y" by blast
  have "2 * x \<le> x * q" using q(2) assms by simp
  with y q(1) show ?thesis by (auto simp: friendly_next_def)
qed

lemma friendly_next_nonpositive:
  assumes "c \<le> Fin 0"
  shows "friendly_next c \<le> Fin 0 \<and> (friendly_next c = c \<or> friendly_next c < c)"
proof (cases c)
  case (Fin x)
  with assms have x: "x \<le> 0" by auto
  show ?thesis
  proof (cases "x = 0")
    case True
    with Fin show ?thesis by (simp add: friendly_next_zero)
  next
    case False
    with x have neg: "x < 0" by simp
    then have n: "nextMultiplier c = Fin 2" using Fin by (intro nextMultiplier_other) auto
    have "0 < - (x * 2)" using neg by simp
    from roundToFriendlyNumber_ge[OF this] obtain y where
      y: "roundToFriendlyNumber (Fin (- (x * 2))) = Fin y" "- (x * 2) \<le> y" by blast
    have "friendly_next c = Fin (- y)"
      using neg y(1) roundToFriendlyNumber_neg[of "x * 2"] n
      by (simp add: friendly_next_def Fin)
    with y(2) neg Fin show ?thesis by simp
  qed
next
  case NInf
  then show ?thesis by (simp add: friendly_next_def nextMultiplier_other)
qed (use assms in simp_all)

lemma js_less_le_trans: "a = b \<or> a < b \<Longrightarrow> b < c \<Longrightarrow> a < (c::jsnum)"
  using js_less_trans by blast

lemma friendly_loop_nonpositive:
  assumes "start \<le> Fin 0" "start < endVal"
  shows "friendly_loop start endVal inclEnd scale = None"
proof (rule ccontr)
  assume "friendly_loop start endVal inclEnd scale \<noteq> None"
  then obtain ys where loop: "friendly_loop start endVal inclEnd scale = Some ys" by blast
  have "\<not> (start \<le> Fin 0 \<and> start < endVal)"
  proof (rule friendly_loop.raw_induct[where P = "\<lambda>current endVal inclEnd scale ys.
            \<not> (current \<le> Fin 0 \<and> current < endVal)", OF _ loop])
    fix f :: "jsnum \<Rightarrow> jsnum \<Rightarrow> bool \<Rightarrow> jsnum list \<Rightarrow> jsnum list option"
      and current endVal inclEnd scale ys
    assume IH: "\<And>c e i s y. f c e i s = Some y \<Longrightarrow> \<not> (c \<le> Fin 0 \<and> c < e)"
    define scale' where "scale' = (if friendly_next current < endVal then scale @ [friendly_next current]
                   else if inclEnd then scale @ [roundToFriendlyNumber endVal] else scale)"
    assume "(if current < endVal
             then f (friendly_next current) endVal inclEnd
                    (if friendly_next current < endVal then scale @ [friendly_next current]
                     else if inclEnd then scale @ [roundToFriendlyNumber endVal] else scale)
             else Some scale) = Some ys"
    then have body: "(if current < endVal then f (friendly_next current) endVal inclEnd scale'
                      else Some scale) = Some ys"
      unfolding scale'_def .
    show "\<not> (current \<le> Fin 0 \<and> current < endVal)"
    proof
      assume a: "current \<le> Fin 0 \<and> current < endVal"
      then have call: "f (friendly_next current) endVal inclEnd scale' = Some ys"
        using body by simp
      from a friendly_next_nonpositive[of current]
      have "friendly_next current \<le> Fin 0" "friendly_next current < endVal"
        using js_less_le_trans[of "friendly_next current" current endVal] by auto
      with IH[OF call] show False by simp
    qed
  qed
  with assms show False by simp
qed

text \<open>
  C2: \<^verbatim>\<open>generateScale\<close> is claimed to terminate for every \<^verbatim>\<open>start < end\<close>. The friendly
  progression does not when \<^verbatim>\<open>start\<close> is zero: \<^verbatim>\<open>current\<close> is \<open>0\<close>, twice \<open>0\<close> is \<open>0\<close>, its
  friendly rounding is \<open>0\<close>, and \<^verbatim>\<open>current < end\<close> holds for ever. The call
  \<^verbatim>\<open>generateScale(0, 1000000)\<close> of the README does not return.
\<close>

theorem generateScale_zero_start_diverges:
  "generateScale (Fin 0) (Fin 1000000) noOptions = None"
  by (simp add: generateScale_def noOptions_def orDefault_def Let_def friendly_loop_nonpositive)

lemma generateScale_nonpositive_start_diverges:
  assumes "start \<le> Fin 0" "start < endVal" "progression options = None \<or> progression options = Some Friendly"
  shows "generateScale start endVal options = None"
proof -
  have "\<not> start \<ge> endVal" using assms(2) by (cases start; cases endVal) auto
  with assms show ?thesis
    by (auto simp: generateScale_def orDefault_def Let_def friendly_loop_nonpositive)
qed


lemma friendly_loop_terminates:
  assumes "0 < c"
  shows "\<exists>ys. friendly_loop (Fin c) (Fin e) inclEnd scale = Some ys"
  using assms
proof (induction "nat \<lfloor>e / c\<rfloor>" arbitrary: c scale rule: less_induct)
  case less
  show ?case
  proof (cases "c < e")
    case False
    then show ?thesis by (subst friendly_loop.simps) simp
  next
    case True
    from friendly_next_ge[OF less.prems] obtain y where
      y: "friendly_next (Fin c) = Fin y" "2 * c \<le> y" by blast
    have ypos: "0 < y" using y(2) less.prems by linarith
    have epos: "0 < e" using True less.prems by linarith
    have "1 \<le> e / c" using True less.prems by simp
    then have k: "1 \<le> \<lfloor>e / c\<rfloor>" by simp
    have "e / y \<le> e / (2 * c)"
      using y(2) less.prems epos by (simp add: frac_le)
    also have "\<dots> = (e / c) / 2" by simp
    also have "\<dots> < (of_int \<lfloor>e / c\<rfloor> + 1) / 2" by simp
    also have "\<dots> \<le> of_int \<lfloor>e / c\<rfloor>" using k by simp
    finally have "\<lfloor>e / y\<rfloor> < \<lfloor>e / c\<rfloor>" by (simp only: floor_less_iff)
    then have "nat \<lfloor>e / y\<rfloor> < nat \<lfloor>e / c\<rfloor>" using k by simp
    from less.hyps[OF this ypos] obtain ys where
      "friendly_loop (Fin y) (Fin e) inclEnd
         (if Fin y < Fin e then scale @ [Fin y]
          else if inclEnd then scale @ [roundToFriendlyNumber (Fin e)] else scale) = Some ys"
      by blast
    moreover have "friendly_loop (Fin c) (Fin e) inclEnd scale =
       friendly_loop (Fin y) (Fin e) inclEnd
         (if Fin y < Fin e then scale @ [Fin y]
          else if inclEnd then scale @ [roundToFriendlyNumber (Fin e)] else scale)"
      using True by (subst friendly_loop.simps) (simp only: y(1) less_jsnum.simps if_True)
    ultimately show ?thesis by simp
  qed
qed

lemma generateScale_terminates:
  assumes "0 < s" "s < e"
  shows "\<exists>xs. generateScale (Fin s) (Fin e) options = Some (Inr xs)"
proof -
  obtain ys where "friendly_loop (Fin s) (Fin e) (orDefault (includeEnd options) True)
      (if orDefault (includeStart options) True then [roundToFriendlyNumber (Fin s)] else []) = Some ys"
    using friendly_loop_terminates[OF assms(1)] by blast
  with assms(2) show ?thesis by (simp add: generateScale_def Let_def)
qed


subsection \<open>The multiplier of the friendly progression\<close>

lemma normalized_pos:
  assumes "0 < x"
  shows "Fin x / Math_pow10 (Math_floor (Math_log10 (Fin x))) = Fin (x / 10 powi \<lfloor>log 10 x\<rfloor>)"
  using assms by (simp add: pow10_of_int)


lemma normalized_scaled:
  fixes a :: real
  assumes "1 \<le> a" "a < 10"
  shows "Fin (a * 10 powi m) / Math_pow10 (Math_floor (Math_log10 (Fin (a * 10 powi m)))) = Fin a"
proof -
  have p: "0 < (10::real) powi m" by simp
  have "10 powi m \<le> a * 10 powi m" using assms(1) p by simp
  moreover have "a * 10 powi m < 10 powi (m + 1)"
    using assms(2) p by (simp add: power_int_add)
  ultimately have "\<lfloor>log 10 (a * 10 powi m)\<rfloor> = m" by (rule floor_log10_eq)
  moreover have "0 < a * 10 powi m" using assms(1) p by simp
  ultimately have "Fin (a * 10 powi m) / Math_pow10 (Math_floor (Math_log10 (Fin (a * 10 powi m))))
                     = Fin (a * 10 powi m / 10 powi m)"
    by (simp only: normalized_pos)
  then show ?thesis by simp
qed















section \<open>Agreement with the tests of the repository\<close>

text \<open>The model returns what the tests of the repository expect of the code. From a
  friendly number on, the friendly progression runs through 1, 2 and 5 times the powers
  of ten.\<close>

lemma nextMultiplier_scaled:
  fixes k :: real
  assumes "1 \<le> k" "k < 10"
  shows "nextMultiplier (Fin (k * 10 powi m)) =
           (if k < 3 / 2 then Fin 2 else if k < 9 / 4 then Fin (5 / 2) else Fin 2)"
proof -
  have "Fin (k * 10 powi m) / Math_pow10 (Math_floor (Math_log10 (Fin (k * 10 powi m)))) = Fin k"
    using assms by (rule normalized_scaled)
  then show ?thesis unfolding nextMultiplier_def Let_def by simp
qed

lemma friendly_next_125:
  "friendly_next (Fin (1 * 10 powi m)) = Fin (2 * 10 powi m)"
  "friendly_next (Fin (2 * 10 powi m)) = Fin (5 * 10 powi m)"
  "friendly_next (Fin (5 * 10 powi m)) = Fin (1 * 10 powi (m + 1))"
proof -
  have "roundToFriendlyNumber (Fin (2 * 10 powi m)) = Fin (2 * 10 powi m)"
    by (subst roundToFriendlyNumber_scaled) auto
  then show "friendly_next (Fin (1 * 10 powi m)) = Fin (2 * 10 powi m)"
    unfolding friendly_next_def by (subst nextMultiplier_scaled) (auto simp: mult.commute)
  have "roundToFriendlyNumber (Fin (5 * 10 powi m)) = Fin (5 * 10 powi m)"
    by (subst roundToFriendlyNumber_scaled) auto
  then show "friendly_next (Fin (2 * 10 powi m)) = Fin (5 * 10 powi m)"
    unfolding friendly_next_def by (subst nextMultiplier_scaled) (auto simp: mult.commute)
  have "roundToFriendlyNumber (Fin (1 * 10 powi (m + 1))) = Fin (1 * 10 powi (m + 1))"
    by (subst roundToFriendlyNumber_scaled) auto
  moreover have "(5 * 10 powi m) * 2 = 1 * (10::real) powi (m + 1)"
    by (simp add: power_int_add)
  ultimately show "friendly_next (Fin (5 * 10 powi m)) = Fin (1 * 10 powi (m + 1))"
    unfolding friendly_next_def by (subst nextMultiplier_scaled) (auto simp del: mult_1)
qed

lemma generateScale_test_friendly:
  "generateScale (Fin 100) (Fin 1000000) noOptions =
     Some (Inr [Fin 100, Fin 200, Fin 500, Fin 1000, Fin 2000, Fin 5000, Fin 10000, Fin 20000,
                Fin 50000, Fin 100000, Fin 200000, Fin 500000, Fin 1000000])"
proof -
  have steps:
    "friendly_next (Fin 100) = Fin 200" "friendly_next (Fin 200) = Fin 500"
    "friendly_next (Fin 500) = Fin 1000" "friendly_next (Fin 1000) = Fin 2000"
    "friendly_next (Fin 2000) = Fin 5000" "friendly_next (Fin 5000) = Fin 10000"
    "friendly_next (Fin 10000) = Fin 20000" "friendly_next (Fin 20000) = Fin 50000"
    "friendly_next (Fin 50000) = Fin 100000" "friendly_next (Fin 100000) = Fin 200000"
    "friendly_next (Fin 200000) = Fin 500000" "friendly_next (Fin 500000) = Fin 1000000"
    using friendly_next_125[of 2] friendly_next_125[of 3] friendly_next_125[of 4]
      friendly_next_125[of 5] by simp_all
  have e: "roundToFriendlyNumber (Fin 1000000) = Fin 1000000"
    using roundToFriendlyNumber_scaled[of 1 6] by simp
  have "friendly_loop (Fin 100) (Fin 1000000) True [Fin 100] =
     Some [Fin 100, Fin 200, Fin 500, Fin 1000, Fin 2000, Fin 5000, Fin 10000, Fin 20000,
           Fin 50000, Fin 100000, Fin 200000, Fin 500000, Fin 1000000]"
    by (simp add: friendly_loop.simps steps e)
  then show ?thesis
    by (simp add: generateScale_def noOptions_def orDefault_def Let_def friendly_100
        Set_of_def sort_numeric_def minus_jsnum_def)
qed

lemma roundToHalfSignificantDigits_test:
  "roundToHalfSignificantDigits (Fin 1321) 1 = Fin 1500"
  "roundToHalfSignificantDigits (Fin 1234) 2 = Fin 1250"
  "roundToHalfSignificantDigits (Fin 1750) 2 = Fin 1750"
  using floor_log10_eq[of 3 1321] floor_log10_eq[of 3 1234] floor_log10_eq[of 3 1750]
  by (simp_all add: roundToHalfSignificantDigits_Fin round_def)

lemma countSignificantDigits_test:
  "countSignificantDigits (Fin 1234) = 4"
  "countSignificantDigits (Fin (1234 / 1000000)) = 4"
  "countSignificantDigits (Fin (12345 / 100)) = 5"
  "countSignificantDigits (Fin (- 1234)) = 4"
  using floor_log10_eq[of 3 1234] floor_log10_eq[of "-3" "1234 / 1000000"]
    floor_log10_eq[of 2 "12345 / 100"]
  by (simp_all add: countSignificantDigits_Fin fraction_digits.simps is_integer_floor_ceiling)

lemma countSignificantDigits_25: "countSignificantDigits (Fin (5 / 2)) = 2"
  using floor_log10_eq[of 0 "5 / 2"]
  by (simp add: countSignificantDigits_Fin fraction_digits.simps is_integer_floor_ceiling)

lemma countSignificantDigits_100: "countSignificantDigits (Fin 100) = 1"
  using floor_log10_eq[of 2 100]
  by (simp add: countSignificantDigits_Fin fraction_digits.simps is_integer_floor_ceiling)

lemma countSignificantDigits_40: "countSignificantDigits (Fin 40) = 1"
  using floor_log10_eq[of 1 40]
  by (simp add: countSignificantDigits_Fin fraction_digits.simps is_integer_floor_ceiling)

lemma scaleNumber_test:
  "scaleNumber (Fin (5 / 2)) (Fin 16) noScaleOptions = Fin 40"
  "scaleNumber (Fin 100) (Fin (3 / 2)) (noScaleOptions\<lparr>preserveSignificantDigits := Some True\<rparr>) = Fin 200"
  "scaleNumberInverse (Fin 40) (Fin 16) noScaleOptions = Fin 3"
  using floor_log10_eq[of 1 40] floor_log10_eq[of 2 150] floor_log10_eq[of 0 "5 / 2"]
  by (simp_all add: scaleNumber_def scaleNumberInverse_def noScaleOptions_def orDefault_def Let_def
      countSignificantDigits_25 countSignificantDigits_100 countSignificantDigits_40
      roundToSignificantDigits_Fin round_def)

end
